theory Spec2Isabelle
  imports
    Main
    "HOL-Library.Multiset"
    "HOL-Library.Sublist"
    "HOL-Library.Char_ord"
    "HOL-Library.List_Lexorder"
begin

section \<open>Python values used by the tag generator\<close>

text \<open>
  The program is \<^verbatim>\<open>danbooru_tag_gen_no_chara_ui.py\<close>. Python's \<^verbatim>\<open>str\<close> is modelled by
  \<^typ>\<open>string\<close>, a \<^typ>\<open>char\<close> standing for a code point below 256; Python's unbounded
  \<^verbatim>\<open>int\<close> by \<^typ>\<open>int\<close>; an uncaught exception by the left injection of a sum.
\<close>

datatype py_error = ValueError

subsection \<open>Formatting an integer inside an f-string\<close>

definition digit_char :: "nat \<Rightarrow> char" where
  "digit_char d = char_of (48 + d)"

function str_nat :: "nat \<Rightarrow> string" where
  "str_nat n = (if n < 10 then [digit_char n] else str_nat (n div 10) @ [digit_char (n mod 10)])"
  by pat_completeness auto
termination
  by (relation "measure (\<lambda>n. n)") auto

declare str_nat.simps [simp del]

definition str_int :: "int \<Rightarrow> string" where
  "str_int i = (if i < 0 then CHR ''-'' # str_nat (nat (- i)) else str_nat (nat i))"

subsection \<open>\<^verbatim>\<open>str.split()\<close> with no argument\<close>

text \<open>
  The characters below 256 that \<^verbatim>\<open>str.isspace\<close> accepts: tab, line feed, vertical tab, form
  feed, carriage return, the four separators 0x1C to 0x1F, the space, NEL and the no-break space.
\<close>

definition isspace :: "char \<Rightarrow> bool" where
  "isspace c \<longleftrightarrow>
     c \<in> {CHR 0x09, CHR 0x0A, CHR 0x0B, CHR 0x0C, CHR 0x0D,
          CHR 0x1C, CHR 0x1D, CHR 0x1E, CHR 0x1F, CHR 0x20, CHR 0x85, CHR 0xA0}"

text \<open>
  \<^verbatim>\<open>s.split()\<close> cuts at runs of whitespace and yields no empty token. \<open>cur\<close> is the token
  being read.
\<close>

fun split_from :: "string \<Rightarrow> string \<Rightarrow> string list" where
  "split_from cur [] = (if cur = [] then [] else [cur])"
| "split_from cur (c # cs) =
     (if isspace c then (if cur = [] then split_from [] cs else cur # split_from [] cs)
      else split_from (cur @ [c]) cs)"

definition str_split :: "string \<Rightarrow> string list" where
  "str_split s = split_from [] s"

text \<open>A token: a non-empty string with no whitespace character.\<close>

definition whitespace_free :: "string \<Rightarrow> bool" where
  "whitespace_free s \<longleftrightarrow> list_all (\<lambda>c. \<not> isspace c) s"

definition is_token :: "string \<Rightarrow> bool" where
  "is_token s \<longleftrightarrow> s \<noteq> [] \<and> whitespace_free s"

text \<open>\<^verbatim>\<open>sep.join(xs)\<close>.\<close>

fun str_join :: "string \<Rightarrow> string list \<Rightarrow> string" where
  "str_join sep [] = []"
| "str_join sep [x] = x"
| "str_join sep (x # y # ys) = x @ sep @ str_join sep (y # ys)"

text \<open>
  \<^verbatim>\<open>s.split(c)\<close> for a one-character separator, by which an exported file is read back
  line by line; \<open>cur\<close> is the piece being read.
\<close>

fun split_at :: "char \<Rightarrow> string \<Rightarrow> string \<Rightarrow> string list" where
  "split_at c cur [] = [cur]"
| "split_at c cur (x # xs) = (if x = c then cur # split_at c [] xs else split_at c (cur @ [x]) xs)"

subsection \<open>Sets of strings\<close>

text \<open>
  A Python \<^verbatim>\<open>set\<close> is represented by the list of its members, each once. \<^verbatim>\<open>len\<close> is
  \<^const>\<open>length\<close>. Python leaves the order in which a set is enumerated open, so
  \<^verbatim>\<open>list(s)\<close> and a comprehension over \<^verbatim>\<open>s\<close> take an oracle that fixes the order: any
  function \<open>ord\<close> chooses a permutation, through the exchanges of \<open>permute_loop\<close>.
\<close>

definition set_add :: "'a \<Rightarrow> 'a list \<Rightarrow> 'a list" where
  "set_add x s = (if x \<in> set s then s else s @ [x])"

fun set_update :: "'a list \<Rightarrow> 'a list \<Rightarrow> 'a list" where
  "set_update s [] = s"
| "set_update s (x # xs) = set_update (set_add x s) xs"

fun permute_loop :: "(nat \<Rightarrow> nat) \<Rightarrow> nat \<Rightarrow> 'a list \<Rightarrow> 'a list" where
  "permute_loop choice 0 x = x"
| "permute_loop choice (Suc i) x =
     (let j = choice (Suc i) mod (Suc i + 1)
      in permute_loop choice i (x[Suc i := x ! j, j := x ! Suc i]))"

definition py_list :: "(nat \<Rightarrow> nat) \<Rightarrow> 'a list \<Rightarrow> 'a list" where
  "py_list ord s = permute_loop ord (length s - 1) s"

subsection \<open>The \<^verbatim>\<open>random\<close> module\<close>

text \<open>
  The generator is an arbitrary function \<open>rng\<close>: \<open>rng i\<close> is the raw value behind the draw
  made at loop index \<open>i\<close>, and \<^verbatim>\<open>randbelow(n)\<close> is that value modulo \<open>n\<close>.

  \<^verbatim>\<open>random.shuffle(x)\<close>:
  \<^verbatim>\<open>for i in reversed(range(1, len(x))): j = randbelow(i + 1); x[i], x[j] = x[j], x[i]\<close>
\<close>

definition random_shuffle :: "(nat \<Rightarrow> nat) \<Rightarrow> 'a list \<Rightarrow> 'a list" where
  "random_shuffle rng x = permute_loop rng (length x - 1) x"

text \<open>
  \<^verbatim>\<open>random.sample(population, k)\<close> raises \<^verbatim>\<open>ValueError\<close> unless \<^verbatim>\<open>0 <= k <= n\<close>, and
  then selects from a copy of the population:
  \<^verbatim>\<open>for i in range(k): j = randbelow(n - i); result[i] = pool[j]; pool[j] = pool[n - i - 1]\<close>
  \<open>sample_loop\<close> carries the part of the pool still in play, its first \<open>n - i\<close> elements.
  For a large population CPython selects positions by rejection instead; both give \<open>k\<close>
  elements at pairwise distinct positions, and \<open>sample_loop\<close> reaches each such list.
\<close>

fun sample_loop :: "(nat \<Rightarrow> nat) \<Rightarrow> nat \<Rightarrow> 'a list \<Rightarrow> 'a list" where
  "sample_loop rng 0 pool = []"
| "sample_loop rng (Suc k) pool =
     (let j = rng (Suc k) mod length pool
      in pool ! j # sample_loop rng k (butlast (pool[j := last pool])))"

definition random_sample :: "(nat \<Rightarrow> nat) \<Rightarrow> 'a list \<Rightarrow> int \<Rightarrow> py_error + 'a list" where
  "random_sample rng population k =
     (if 0 \<le> k \<and> k \<le> int (length population)
      then Inr (sample_loop rng (nat k) population)
      else Inl ValueError)"

text \<open>\<^verbatim>\<open>random.randint(a, b)\<close> is \<^verbatim>\<open>a + randbelow(b - a + 1)\<close>.\<close>

definition randint :: "nat \<Rightarrow> int \<Rightarrow> int \<Rightarrow> int" where
  "randint r a b = a + int (r mod nat (b - a + 1))"

section \<open>The aggregator: \<^verbatim>\<open>fetch_tags\<close>\<close>

text \<open>
  A post object of the API's JSON array: the identifier and the five tag strings, each of
  which may be absent.
\<close>

record post =
  post_id :: "int option"
  tag_string_general :: "string option"
  tag_string_copyright :: "string option"
  tag_string_character :: "string option"
  tag_string_meta :: "string option"
  tag_string_artist :: "string option"

text \<open>
  What one \<^verbatim>\<open>requests.get\<close> followed by \<^verbatim>\<open>raise_for_status\<close> and \<^verbatim>\<open>json\<close> gives: a
  \<^verbatim>\<open>RequestException\<close> with its text, or the list of posts.
\<close>

datatype response = RequestException string | Json "post list"

text \<open>
  Everything outside the program: the answer of the remote endpoint to the \<open>k\<close>-th request,
  the enumeration orders of the three sets, and the random generator.
\<close>

record env =
  http_get :: "nat \<Rightarrow> response"
  order_tags :: "nat \<Rightarrow> nat"
  order_artists :: "nat \<Rightarrow> nat"
  order_urls :: "nat \<Rightarrow> nat"
  rng :: "nat \<Rightarrow> nat"

record fetch_state =
  collected_tags :: "string list"
  collected_artist_tags :: "string list"
  source_post_urls :: "string list"
  requests_made :: nat

definition init_state :: fetch_state where
  "init_state =
     \<lparr>collected_tags = [], collected_artist_tags = [], source_post_urls = [], requests_made = 0\<rparr>"

text \<open>The representation invariant of the three sets, and what the pools hold: tokens.\<close>

definition state_ok :: "fetch_state \<Rightarrow> bool" where
  "state_ok st \<longleftrightarrow>
     distinct (collected_tags st) \<and> distinct (collected_artist_tags st)
     \<and> distinct (source_post_urls st)
     \<and> list_all is_token (collected_tags st) \<and> list_all is_token (collected_artist_tags st)"

definition max_requests :: nat where
  "max_requests = 10"

definition needed_candidates :: "int \<Rightarrow> int" where
  "needed_candidates cnt = cnt * 3 + 20"

text \<open>\<^verbatim>\<open>post.get(field, '')\<close>.\<close>

definition get_or_empty :: "string option \<Rightarrow> string" where
  "get_or_empty f = (case f of None \<Rightarrow> [] | Some s \<Rightarrow> s)"

definition post_url :: "int \<Rightarrow> string" where
  "post_url i = ''https://danbooru.donmai.us/posts/'' @ str_int i"

text \<open>The body of \<^verbatim>\<open>for post in posts\<close>.\<close>

definition add_post :: "fetch_state \<Rightarrow> post \<Rightarrow> fetch_state" where
  "add_post st p =
     (let urls = (case post_id p of
                    Some i \<Rightarrow> set_add (post_url i) (source_post_urls st)
                  | None \<Rightarrow> source_post_urls st);
          general_tags = str_split (get_or_empty (tag_string_general p));
          copyright_tags = str_split (get_or_empty (tag_string_copyright p));
          character_tags = str_split (get_or_empty (tag_string_character p));
          meta_tags = str_split (get_or_empty (tag_string_meta p));
          tags = set_update (set_update (set_update (set_update (collected_tags st)
                   general_tags) copyright_tags) character_tags) meta_tags;
          artist_tags = str_split (get_or_empty (tag_string_artist p))
      in st\<lparr>collected_tags := tags,
            collected_artist_tags := set_update (collected_artist_tags st) artist_tags,
            source_post_urls := urls\<rparr>)"

fun add_posts :: "fetch_state \<Rightarrow> post list \<Rightarrow> fetch_state" where
  "add_posts st [] = st"
| "add_posts st (p # ps) = add_posts (add_post st p) ps"

lemma requests_made_add_post [simp]: "requests_made (add_post st p) = requests_made st"
  by (simp add: add_post_def Let_def)

lemma requests_made_add_posts [simp]: "requests_made (add_posts st ps) = requests_made st"
  by (induction ps arbitrary: st) simp_all

text \<open>
  The \<^verbatim>\<open>while\<close> loop. A \<^verbatim>\<open>RequestException\<close> leaves the function at once: the left result
  carries its text and the number of requests made so far.
\<close>

function fetch_loop :: "(nat \<Rightarrow> response) \<Rightarrow> int \<Rightarrow> fetch_state \<Rightarrow> (string \<times> nat) + fetch_state" where
  "fetch_loop http needed st =
     (if int (length (collected_tags st) + length (collected_artist_tags st)) < needed
         \<and> requests_made st < max_requests
      then
        (case http (requests_made st + 1) of
           RequestException e \<Rightarrow> Inl (e, requests_made st + 1)
         | Json posts \<Rightarrow>
             if posts = [] then fetch_loop http needed (st\<lparr>requests_made := requests_made st + 1\<rparr>)
             else fetch_loop http needed (add_posts (st\<lparr>requests_made := requests_made st + 1\<rparr>) posts))
      else Inr st)"
  by pat_completeness auto
termination
  by (relation "measure (\<lambda>(http, needed, st). max_requests - requests_made st)") auto

declare fetch_loop.simps [simp del]

text \<open>
  The condition of the \<^verbatim>\<open>while\<close> loop, and the state that \<open>k\<close> iterations of its body
  leave when the loop is not left in between: the counter is raised before each request and
  the posts of the answer are added.
\<close>

fun state_after :: "(nat \<Rightarrow> response) \<Rightarrow> nat \<Rightarrow> fetch_state" where
  "state_after http 0 = init_state"
| "state_after http (Suc k) =
     (case http (Suc k) of
        RequestException msg \<Rightarrow> (state_after http k)\<lparr>requests_made := Suc k\<rparr>
      | Json posts \<Rightarrow> add_posts ((state_after http k)\<lparr>requests_made := Suc k\<rparr>) posts)"

definition loop_guard :: "int \<Rightarrow> fetch_state \<Rightarrow> bool" where
  "loop_guard needed st \<longleftrightarrow>
     int (length (collected_tags st) + length (collected_artist_tags st)) < needed
     \<and> requests_made st < max_requests"

definition aggregate :: "env \<Rightarrow> int \<Rightarrow> (string \<times> nat) + fetch_state" where
  "aggregate e cnt = fetch_loop (http_get e) (needed_candidates cnt) init_state"

text \<open>The number of HTTP requests one call of \<^verbatim>\<open>fetch_tags\<close> issues.\<close>

definition requests_issued :: "env \<Rightarrow> int \<Rightarrow> nat" where
  "requests_issued e cnt =
     (case aggregate e cnt of Inl (msg, n) \<Rightarrow> n | Inr st \<Rightarrow> requests_made st)"

definition error_status :: "string \<Rightarrow> string" where
  "error_status e = ''Error: Failed to fetch posts from Danbooru. '' @ e"

definition warning_status :: "nat \<Rightarrow> string" where
  "warning_status n = ''Warning: Found only '' @ str_nat n @ '' unique tags. Returning all.''"

definition success_status :: "nat \<Rightarrow> string" where
  "success_status n = ''Success! Generated '' @ str_nat n @ '' tags from random posts.''"

text \<open>A status message indicates success when it is the message of the last \<^verbatim>\<open>return\<close>.\<close>

definition status_success :: "string \<Rightarrow> bool" where
  "status_success s \<longleftrightarrow> prefix ''Success!'' s"

text \<open>\<^verbatim>\<open>final_pool\<close>, built after the loop.\<close>

definition final_pool :: "env \<Rightarrow> fetch_state \<Rightarrow> string list" where
  "final_pool e st =
     py_list (order_tags e) (collected_tags st)
     @ map (\<lambda>tag. ''artist: '' @ tag) (py_list (order_artists e) (collected_artist_tags st))"

text \<open>
  The result is the tuple (tags, post URLs, full pool, status message). In the shortfall
  branch the pool is shuffled in place and the same list is returned twice.
\<close>

definition fetch_tags :: "env \<Rightarrow> int \<Rightarrow> py_error + (string list \<times> string list \<times> string list \<times> string)" where
  "fetch_tags e cnt =
     (case aggregate e cnt of
        Inl (msg, n) \<Rightarrow> Inr ([], [], [], error_status msg)
      | Inr st \<Rightarrow>
          (let pool = final_pool e st in
           if int (length pool) < cnt then
             (let shuffled = random_shuffle (rng e) pool
              in Inr (shuffled, py_list (order_urls e) (source_post_urls st), shuffled,
                      warning_status (length shuffled)))
           else
             (case random_sample (rng e) pool cnt of
                Inl err \<Rightarrow> Inl err
              | Inr selected_tags \<Rightarrow>
                  Inr (selected_tags, py_list (order_urls e) (source_post_urls st), pool,
                       success_status (length selected_tags)))))"

section \<open>The presenter: input validation and export\<close>

text \<open>
  \<^verbatim>\<open>TagGeneratorApp.start_generation_thread\<close>. The inputs are the mode variable and the texts
  of the three entry fields. The outcome records the error box shown (title and text), whether
  the generate button is enabled again, the last status text, and the count handed to the
  thread that runs \<^verbatim>\<open>run_fetch_logic\<close>, if one is started. Python's \<^verbatim>\<open>int\<close> on a string is
  the parameter \<open>py_int\<close>, \<open>None\<close> standing for its \<^verbatim>\<open>ValueError\<close>; \<open>r\<close> is the raw
  random value behind \<^verbatim>\<open>random.randint\<close>.
\<close>

record ui_inputs =
  mode :: string
  fixed_entry :: string
  min_entry :: string
  max_entry :: string

record ui_outcome =
  error_box :: "(string \<times> string) option"
  generate_enabled :: bool
  status_text :: string
  fetch_started :: "int option"

definition input_error :: "string \<Rightarrow> ui_outcome" where
  "input_error text =
     \<lparr>error_box = Some (''Input Error'', text), generate_enabled = True,
      status_text = ''Ready.'', fetch_started = None\<rparr>"

definition thread_started :: "int \<Rightarrow> ui_outcome" where
  "thread_started cnt =
     \<lparr>error_box = None, generate_enabled = False,
      status_text = ''Validating input...'', fetch_started = Some cnt\<rparr>"

definition start_generation_thread :: "(string \<Rightarrow> int option) \<Rightarrow> nat \<Rightarrow> ui_inputs \<Rightarrow> ui_outcome" where
  "start_generation_thread py_int r ui =
     (if mode ui = ''fixed'' then
        (case py_int (fixed_entry ui) of
           None \<Rightarrow> input_error ''Please enter valid whole numbers for the tag amounts.''
         | Some cnt \<Rightarrow> thread_started cnt)
      else
        (case py_int (min_entry ui) of
           None \<Rightarrow> input_error ''Please enter valid whole numbers for the tag amounts.''
         | Some min_val \<Rightarrow>
             (case py_int (max_entry ui) of
                None \<Rightarrow> input_error ''Please enter valid whole numbers for the tag amounts.''
              | Some max_val \<Rightarrow>
                  if min_val > max_val
                  then input_error ''Minimum value cannot be greater than the maximum value.''
                  else thread_started (randint r min_val max_val))))"

text \<open>
  \<^verbatim>\<open>run_fetch_logic\<close> calls \<^verbatim>\<open>fetch_tags\<close>; one click on the button gives its result, if the
  thread is started, and the number of HTTP requests issued.
\<close>

definition run_fetch_logic :: "env \<Rightarrow> int \<Rightarrow> py_error + (string list \<times> string list \<times> string list \<times> string)" where
  "run_fetch_logic e cnt = fetch_tags e cnt"

definition generate_click ::
  "(string \<Rightarrow> int option) \<Rightarrow> nat \<Rightarrow> env \<Rightarrow> ui_inputs
     \<Rightarrow> (py_error + (string list \<times> string list \<times> string list \<times> string)) option \<times> nat" where
  "generate_click py_int r e ui =
     (case fetch_started (start_generation_thread py_int r ui) of
        None \<Rightarrow> (None, 0)
      | Some cnt \<Rightarrow> (Some (run_fetch_logic e cnt), requests_issued e cnt))"

text \<open>
  \<^verbatim>\<open>TagGeneratorApp.save_post_sources\<close>, from the stored URL list, the path the file dialog
  returns (empty when cancelled) and the \<^verbatim>\<open>IOError\<close> text that opening or writing a path
  gives, if any.
\<close>

datatype save_outcome = NoSourcesWarning | Cancelled | Written string string | SaveError string

definition save_post_sources :: "string list \<Rightarrow> string \<Rightarrow> (string \<Rightarrow> string option) \<Rightarrow> save_outcome" where
  "save_post_sources post_source_urls filepath io_error =
     (if post_source_urls = [] then NoSourcesWarning
      else if filepath = [] then Cancelled
      else (case io_error filepath of
              Some reason \<Rightarrow> SaveError reason
            | None \<Rightarrow> Written filepath (str_join [CHR 0x0A] (sort post_source_urls))))"

section \<open>Concrete inputs\<close>

text \<open>An endpoint that answers every request with the same single post.\<close>

definition example_post :: post where
  "example_post =
     \<lparr>post_id = Some 42, tag_string_general = Some ''1girl  solo'',
      tag_string_copyright = Some ''original'', tag_string_character = None,
      tag_string_meta = Some ''highres'', tag_string_artist = Some ''solo''\<rparr>"

definition example_env :: env where
  "example_env =
     \<lparr>http_get = (\<lambda>k. Json [example_post]), order_tags = (\<lambda>i. 0), order_artists = (\<lambda>i. 0),
      order_urls = (\<lambda>i. 0), rng = (\<lambda>i. i)\<rparr>"

text \<open>The state in which the loop ends against that endpoint, after ten requests.\<close>

definition example_state :: fetch_state where
  "example_state =
     \<lparr>collected_tags = [''1girl'', ''solo'', ''original'', ''highres''],
      collected_artist_tags = [''solo''],
      source_post_urls = [''https://danbooru.donmai.us/posts/42''],
      requests_made = 10\<rparr>"

text \<open>An endpoint whose second answer is a transport error.\<close>

definition failing_env :: env where
  "failing_env =
     \<lparr>http_get = (\<lambda>k. if k = 2 then RequestException ''timed out'' else Json [example_post]),
      order_tags = (\<lambda>i. 0), order_artists = (\<lambda>i. 0), order_urls = (\<lambda>i. 0), rng = (\<lambda>i. i)\<rparr>"

text \<open>An endpoint that answers every request with an empty list of posts.\<close>

definition empty_env :: env where
  "empty_env =
     \<lparr>http_get = (\<lambda>k. Json []), order_tags = (\<lambda>i. 0), order_artists = (\<lambda>i. 0),
      order_urls = (\<lambda>i. 0), rng = (\<lambda>i. i)\<rparr>"

text \<open>A reading of the two entry texts of the inverted range, and those inputs.\<close>

definition example_int :: "string \<Rightarrow> int option" where
  "example_int s = (if s = ''10'' then Some 10 else if s = ''5'' then Some 5 else None)"

definition inverted_inputs :: ui_inputs where
  "inverted_inputs = \<lparr>mode = ''random'', fixed_entry = '''', min_entry = ''10'', max_entry = ''5''\<rparr>"

text \<open>The first endpoint with a generator whose draws are all zero.\<close>

definition shuffling_env :: env where
  "shuffling_env = example_env\<lparr>rng := (\<lambda>i. 0)\<rparr>"

text \<open>An endpoint whose single post carries twenty-six general tags.\<close>

definition alphabet_post :: post where
  "alphabet_post =
     \<lparr>post_id = Some 7,
      tag_string_general = Some ''a b c d e f g h i j k l m n o p q r s t u v w x y z'',
      tag_string_copyright = None, tag_string_character = None,
      tag_string_meta = None, tag_string_artist = None\<rparr>"

definition alphabet_env :: env where
  "alphabet_env =
     \<lparr>http_get = (\<lambda>k. Json [alphabet_post]), order_tags = (\<lambda>i. 0), order_artists = (\<lambda>i. 0),
      order_urls = (\<lambda>i. 0), rng = (\<lambda>i. i)\<rparr>"

section \<open>Facts about the library functions\<close>

subsection \<open>Enumeration, shuffling and sampling\<close>

lemma mset_permute_loop: "i < length x \<or> i = 0 \<Longrightarrow> mset (permute_loop c i x) = mset x"
proof (induction i arbitrary: x)
  case 0
  then show ?case by simp
next
  case (Suc i)
  then have len: "Suc i < length x" by simp
  let ?j = "c (Suc i) mod (Suc i + 1)"
  have "?j < Suc i + 1" by (rule mod_less_divisor) simp
  then have j: "?j < length x" using len by arith
  let ?y = "x[Suc i := x ! ?j, ?j := x ! Suc i]"
  have "mset ?y = mset x" using mset_swap [OF j len] by simp
  moreover have "mset (permute_loop c i ?y) = mset ?y"
    using len by (intro Suc.IH) simp
  ultimately show ?case by (simp add: Let_def)
qed

lemma mset_py_list [simp]: "mset (py_list ord s) = mset s"
  unfolding py_list_def by (rule mset_permute_loop) (cases s; simp)

lemma mset_random_shuffle [simp]: "mset (random_shuffle r x) = mset x"
  unfolding random_shuffle_def by (rule mset_permute_loop) (cases x; simp)

lemma set_py_list [simp]: "set (py_list ord s) = set s"
  by (metis mset_py_list set_mset_mset)

lemma length_py_list [simp]: "length (py_list ord s) = length s"
  by (metis mset_py_list size_mset)

lemma distinct_py_list [simp]: "distinct (py_list ord s) = distinct s"
  by (metis mset_py_list mset_eq_imp_distinct_iff)

lemma mset_drop_slot:
  assumes "j < length pool"
  shows "add_mset (pool ! j) (mset (butlast (pool[j := last pool]))) = mset pool"
proof (cases pool rule: rev_cases)
  case Nil
  with assms show ?thesis by simp
next
  case (snoc xs l)
  show ?thesis
  proof (cases "j = length xs")
    case True
    then show ?thesis using snoc by simp
  next
    case False
    then have j: "j < length xs" using assms snoc by simp
    then have "butlast (pool[j := last pool]) = xs[j := l]"
      using snoc by (simp add: list_update_append)
    moreover have "pool ! j = xs ! j" using j snoc by (simp add: nth_append)
    ultimately show ?thesis using j snoc by (simp add: mset_update)
  qed
qed

lemma sample_loop_sub:
  "k \<le> length pool \<Longrightarrow> mset (sample_loop r k pool) \<subseteq># mset pool \<and> length (sample_loop r k pool) = k"
proof (induction k arbitrary: pool)
  case 0
  then show ?case by simp
next
  case (Suc k)
  let ?j = "r (Suc k) mod length pool"
  let ?rest = "butlast (pool[?j := last pool])"
  have "0 < length pool" using Suc.prems by arith
  then have j: "?j < length pool" by simp
  have "k \<le> length ?rest" using Suc.prems by simp
  then have ih: "mset (sample_loop r k ?rest) \<subseteq># mset ?rest" "length (sample_loop r k ?rest) = k"
    using Suc.IH by blast+
  have "add_mset (pool ! ?j) (mset (sample_loop r k ?rest)) \<subseteq># add_mset (pool ! ?j) (mset ?rest)"
    using ih(1) by simp
  then show ?case using ih(2) mset_drop_slot [OF j] by (simp add: Let_def)
qed

lemma distinct_sub_mset:
  assumes "mset xs \<subseteq># mset ys" "distinct ys"
  shows "distinct xs"
proof -
  from assms(1) obtain M where M: "mset ys = mset xs + M"
    by (auto simp: subset_mset.le_iff_add)
  obtain zs where "mset zs = M" using ex_mset by blast
  with M have "mset ys = mset (xs @ zs)" by simp
  then have "distinct (xs @ zs)" using assms(2) mset_eq_imp_distinct_iff by blast
  then show ?thesis by simp
qed

lemma random_sample_ok:
  assumes "random_sample r pool k = Inr s" "distinct pool"
  shows "int (length s) = k \<and> distinct s \<and> set s \<subseteq> set pool"
proof -
  from assms(1) have k: "0 \<le> k" "k \<le> int (length pool)" and s: "s = sample_loop r (nat k) pool"
    by (auto simp: random_sample_def split: if_splits)
  have "nat k \<le> length pool" using k by simp
  from sample_loop_sub [OF this, of r] have sub: "mset s \<subseteq># mset pool" and len: "length s = nat k"
    using s by simp_all
  have "set s \<subseteq> set pool" using sub by (metis set_mset_mono set_mset_mset)
  with sub len k assms(2) show ?thesis by (simp add: distinct_sub_mset)
qed

subsection \<open>Every order and every selection is reached\<close>

text \<open>
  The oracles lose nothing: each arrangement of a set is \<open>py_list\<close> for some order
  oracle, and each list of elements taken at distinct positions of a population is
  \<open>sample_loop\<close> for some generator. A statement proved for all oracles therefore covers
  every enumeration order of a Python set and every outcome of \<^verbatim>\<open>random.sample\<close>.
\<close>

lemma permute_loop_cong:
  "(\<And>k. 1 \<le> k \<Longrightarrow> k \<le> i \<Longrightarrow> c k = c' k) \<Longrightarrow> permute_loop c i (x :: 'a list) = permute_loop c' i x"
proof (induction i arbitrary: x)
  case 0
  then show ?case by simp
next
  case (Suc i)
  have "c (Suc i) = c' (Suc i)" using Suc.prems by simp
  moreover have "permute_loop c i p = permute_loop c' i p" for p :: "'a list"
  proof (rule Suc.IH)
    fix k :: nat
    assume "1 \<le> k" "k \<le> i"
    then show "c k = c' k" using Suc.prems by simp
  qed
  ultimately show ?case by (simp add: Let_def)
qed

lemma permute_loop_complete:
  assumes "length x = length y"
    and "i < length x \<or> i = 0"
    and "mset (take (Suc i) x) = mset (take (Suc i) y)"
    and "drop (Suc i) x = drop (Suc i) y"
  shows "\<exists>c. permute_loop c i x = y"
  using assms
proof (induction i arbitrary: x)
  case 0
  have "take 1 x = take 1 y"
  proof (cases x)
    case Nil
    then show ?thesis using "0.prems"(1) by simp
  next
    case (Cons a as)
    then obtain b bs where "y = b # bs" using "0.prems"(1) by (cases y) auto
    then show ?thesis using Cons "0.prems"(3) by simp
  qed
  then have "x = y" using "0.prems"(4) by (metis One_nat_def append_take_drop_id)
  then show ?case by simp
next
  case (Suc i)
  then have len: "Suc i < length x" "Suc i < length y" by simp_all
  have "y ! Suc i \<in> set (take (Suc (Suc i)) y)"
    using len by (simp add: take_Suc_conv_app_nth)
  then have "y ! Suc i \<in> set (take (Suc (Suc i)) x)"
    using Suc.prems(3) by (metis set_mset_mset)
  then obtain j where j: "j < Suc (Suc i)" "x ! j = y ! Suc i"
    using len by (auto simp: in_set_conv_nth)
  let ?x' = "x[Suc i := x ! j, j := x ! Suc i]"
  have at: "?x' ! Suc i = y ! Suc i"
    using j len by (cases "j = Suc i") simp_all
  have "take (Suc (Suc i)) ?x' = (take (Suc (Suc i)) x)[Suc i := take (Suc (Suc i)) x ! j, j := take (Suc (Suc i)) x ! Suc i]"
    using j by (simp add: take_update_swap)
  also have "mset \<dots> = mset (take (Suc (Suc i)) x)"
    by (rule mset_swap) (use j len in simp_all)
  finally have "mset (take (Suc (Suc i)) ?x') = mset (take (Suc (Suc i)) y)"
    using Suc.prems(3) by simp
  moreover have "take (Suc (Suc i)) ?x' = take (Suc i) ?x' @ [y ! Suc i]"
    using len at by (simp add: take_Suc_conv_app_nth [of "Suc i"])
  moreover have "take (Suc (Suc i)) y = take (Suc i) y @ [y ! Suc i]"
    using len by (simp add: take_Suc_conv_app_nth [of "Suc i"])
  ultimately have m: "mset (take (Suc i) ?x') = mset (take (Suc i) y)" by simp
  have "drop (Suc (Suc i)) ?x' = drop (Suc (Suc i)) y"
    using j Suc.prems(4) by simp
  then have d: "drop (Suc i) ?x' = drop (Suc i) y"
    using len at Cons_nth_drop_Suc [of "Suc i" ?x'] Cons_nth_drop_Suc [of "Suc i" y] by simp
  have "\<exists>c. permute_loop c i ?x' = y"
    by (rule Suc.IH) (use Suc.prems(1) len m d in simp_all)
  then obtain c' where c': "permute_loop c' i ?x' = y" by blast
  let ?c = "c'(Suc i := j)"
  have "permute_loop ?c i ?x' = permute_loop c' i ?x'"
    by (rule permute_loop_cong) simp
  moreover have "j mod (Suc i + 1) = j" using j by simp
  ultimately have "permute_loop ?c (Suc i) x = y" using c' by (simp add: Let_def)
  then show ?case by blast
qed

lemma py_list_complete: "mset ys = mset s \<Longrightarrow> \<exists>ord. py_list ord s = ys"
proof -
  assume m: "mset ys = mset s"
  then have l: "length s = length ys" by (metis size_mset)
  have "\<exists>c. permute_loop c (length s - 1) s = ys"
  proof (rule permute_loop_complete [OF l])
    show "length s - 1 < length s \<or> length s - 1 = 0" by (cases s) simp_all
    show "mset (take (Suc (length s - 1)) s) = mset (take (Suc (length s - 1)) ys)"
      using m l by (cases s) simp_all
    show "drop (Suc (length s - 1)) s = drop (Suc (length s - 1)) ys"
      using l by (cases s) simp_all
  qed
  then show ?thesis by (simp add: py_list_def)
qed

lemma sample_loop_cong:
  "(\<And>i. 1 \<le> i \<Longrightarrow> i \<le> k \<Longrightarrow> r i = r' i) \<Longrightarrow> sample_loop r k (pool :: 'a list) = sample_loop r' k pool"
proof (induction k arbitrary: pool)
  case 0
  then show ?case by simp
next
  case (Suc k)
  have "r (Suc k) = r' (Suc k)" using Suc.prems by simp
  moreover have "sample_loop r k p = sample_loop r' k p" for p :: "'a list"
  proof (rule Suc.IH)
    fix i :: nat
    assume "1 \<le> i" "i \<le> k"
    then show "r i = r' i" using Suc.prems by simp
  qed
  ultimately show ?case by (simp add: Let_def)
qed

lemma sample_loop_complete:
  "mset ys \<subseteq># mset pool \<Longrightarrow> \<exists>r. sample_loop r (length ys) pool = ys"
proof (induction ys arbitrary: pool)
  case Nil
  then show ?case by simp
next
  case (Cons y ys)
  have "y \<in> set pool" using Cons.prems by (metis list.set_intros(1) mset_subset_eqD set_mset_mset)
  then obtain j where j: "j < length pool" "pool ! j = y" by (auto simp: in_set_conv_nth)
  let ?rest = "butlast (pool[j := last pool])"
  have "add_mset y (mset ?rest) = mset pool" using mset_drop_slot [OF j(1)] j(2) by simp
  then have "mset ys \<subseteq># mset ?rest" using Cons.prems by (metis mset.simps(2) mset_subset_eq_add_mset_cancel)
  then obtain r' where r': "sample_loop r' (length ys) ?rest = ys" using Cons.IH by blast
  let ?r = "r'(Suc (length ys) := j)"
  have "sample_loop ?r (length ys) ?rest = sample_loop r' (length ys) ?rest"
    by (rule sample_loop_cong) simp
  then have "sample_loop ?r (length (y # ys)) pool = y # ys"
    using j r' by (simp add: Let_def)
  then show ?case by blast
qed

subsection \<open>Splitting and set updates\<close>

lemma split_from_tokens:
  "whitespace_free cur \<Longrightarrow> list_all is_token (split_from cur s)"
proof (induction s arbitrary: cur)
  case Nil
  then show ?case by (simp add: is_token_def)
next
  case (Cons c cs)
  have empty: "whitespace_free []" by (simp add: whitespace_free_def)
  show ?case
  proof (cases "isspace c")
    case True
    then show ?thesis using Cons.prems Cons.IH [OF empty] by (simp add: is_token_def)
  next
    case False
    then have "whitespace_free (cur @ [c])" using Cons.prems by (simp add: whitespace_free_def)
    then show ?thesis using False Cons.IH by simp
  qed
qed

lemma str_split_tokens: "list_all is_token (str_split s)"
  unfolding str_split_def by (rule split_from_tokens) (simp add: whitespace_free_def)

lemma set_set_add [simp]: "set (set_add x s) = insert x (set s)"
  by (auto simp: set_add_def)

lemma distinct_set_add [simp]: "distinct (set_add x s) = distinct s"
  by (simp add: set_add_def)

lemma set_set_update [simp]: "set (set_update s xs) = set s \<union> set xs"
  by (induction xs arbitrary: s) auto

lemma distinct_set_update [simp]: "distinct (set_update s xs) = distinct s"
  by (induction xs arbitrary: s) auto

lemma list_all_set_update:
  "list_all P s \<Longrightarrow> list_all P xs \<Longrightarrow> list_all P (set_update s xs)"
  by (auto simp: list_all_iff)

section \<open>Facts about the aggregation loop\<close>

lemma state_ok_add_post: "state_ok st \<Longrightarrow> state_ok (add_post st p)"
  by (auto simp: state_ok_def add_post_def Let_def str_split_tokens
      intro!: list_all_set_update split: option.splits)

lemma state_ok_add_posts: "state_ok st \<Longrightarrow> state_ok (add_posts st ps)"
  by (induction ps arbitrary: st) (simp_all add: state_ok_add_post)

lemma state_ok_bump: "state_ok (st\<lparr>requests_made := n\<rparr>) = state_ok st"
  by (simp add: state_ok_def)

lemma state_ok_init: "state_ok init_state"
  by (simp add: state_ok_def init_state_def)

lemma fetch_loop_state_ok:
  "state_ok st \<Longrightarrow> fetch_loop http needed st = Inr st' \<Longrightarrow> state_ok st'"
proof (induction http needed st rule: fetch_loop.induct)
  case (1 http needed st)
  from "1.prems"(2) show ?case
    apply (subst (asm) fetch_loop.simps)
    using "1.IH" "1.prems"(1)
    by (auto split: if_splits response.splits simp: state_ok_bump state_ok_add_posts)
qed

lemma fetch_loop_Inr:
  "fetch_loop http needed st = Inr st' \<Longrightarrow>
     requests_made st \<le> requests_made st'
     \<and> (requests_made st' \<le> max_requests \<or> requests_made st' = requests_made st)
     \<and> (\<forall>j. requests_made st < j \<and> j \<le> requests_made st' \<longrightarrow> (\<exists>posts. http j = Json posts))
     \<and> (needed \<le> int (length (collected_tags st') + length (collected_artist_tags st'))
          \<or> max_requests \<le> requests_made st')"
proof (induction http needed st rule: fetch_loop.induct)
  case (1 http needed st)
  let ?cond = "int (length (collected_tags st) + length (collected_artist_tags st)) < needed
         \<and> requests_made st < max_requests"
  show ?case
  proof (cases ?cond)
    case False
    then have "st' = st" using "1.prems" by (subst (asm) fetch_loop.simps) auto
    then show ?thesis using False by auto
  next
    case True
    show ?thesis
    proof (cases "http (requests_made st + 1)")
      case (RequestException e)
      then show ?thesis using "1.prems" True by (subst (asm) fetch_loop.simps) auto
    next
      case (Json posts)
      define st1 where "st1 = (if posts = [] then st\<lparr>requests_made := requests_made st + 1\<rparr>
          else add_posts (st\<lparr>requests_made := requests_made st + 1\<rparr>) posts)"
      have r1: "requests_made st1 = requests_made st + 1" by (simp add: st1_def)
      have run: "fetch_loop http needed st1 = Inr st'"
        using "1.prems" True Json by (subst (asm) fetch_loop.simps) (auto simp: st1_def)
      have ih: "requests_made st1 \<le> requests_made st'
     \<and> (requests_made st' \<le> max_requests \<or> requests_made st' = requests_made st1)
     \<and> (\<forall>j. requests_made st1 < j \<and> j \<le> requests_made st' \<longrightarrow> (\<exists>posts. http j = Json posts))
     \<and> (needed \<le> int (length (collected_tags st') + length (collected_artist_tags st'))
          \<or> max_requests \<le> requests_made st')"
        using "1.IH"(1) [OF True Json] "1.IH"(2) [OF True Json] run
        by (cases "posts = []") (simp_all add: st1_def)
      have "\<exists>posts. http j = Json posts" if "requests_made st < j" "j \<le> requests_made st'" for j
      proof (cases "j = requests_made st + 1")
        case True
        then show ?thesis using Json by simp
      next
        case False
        then have "requests_made st1 < j" using that r1 by simp
        then show ?thesis using ih that by blast
      qed
      moreover have "requests_made st' \<le> max_requests" using ih r1 True by auto
      ultimately show ?thesis using ih r1 by auto
    qed
  qed
qed

lemma fetch_loop_Inl:
  "fetch_loop http needed st = Inl (e, n) \<Longrightarrow>
     requests_made st < n \<and> n \<le> max_requests \<and> http n = RequestException e
     \<and> (\<forall>j. requests_made st < j \<and> j < n \<longrightarrow> (\<exists>posts. http j = Json posts))"
proof (induction http needed st rule: fetch_loop.induct)
  case (1 http needed st)
  let ?cond = "int (length (collected_tags st) + length (collected_artist_tags st)) < needed
         \<and> requests_made st < max_requests"
  show ?case
  proof (cases ?cond)
    case False
    then show ?thesis using "1.prems" by (subst (asm) fetch_loop.simps) auto
  next
    case True
    show ?thesis
    proof (cases "http (requests_made st + 1)")
      case (RequestException e')
      then have "e = e'" "n = requests_made st + 1"
        using "1.prems" True by (subst (asm) fetch_loop.simps; simp)+
      then show ?thesis using RequestException True by auto
    next
      case (Json posts)
      define st1 where "st1 = (if posts = [] then st\<lparr>requests_made := requests_made st + 1\<rparr>
          else add_posts (st\<lparr>requests_made := requests_made st + 1\<rparr>) posts)"
      have r1: "requests_made st1 = requests_made st + 1" by (simp add: st1_def)
      have run: "fetch_loop http needed st1 = Inl (e, n)"
        using "1.prems" True Json by (subst (asm) fetch_loop.simps) (auto simp: st1_def)
      have ih: "requests_made st1 < n \<and> n \<le> max_requests \<and> http n = RequestException e
     \<and> (\<forall>j. requests_made st1 < j \<and> j < n \<longrightarrow> (\<exists>posts. http j = Json posts))"
        using "1.IH"(1) [OF True Json] "1.IH"(2) [OF True Json] run
        by (cases "posts = []") (simp_all add: st1_def)
      have "\<exists>posts. http j = Json posts" if "requests_made st < j" "j < n" for j
      proof (cases "j = requests_made st + 1")
        case True
        then show ?thesis using Json by simp
      next
        case False
        then have "requests_made st1 < j" using that r1 by simp
        then show ?thesis using ih that by blast
      qed
      then show ?thesis using ih r1 by auto
    qed
  qed
qed

lemma artist_entry_not_whitespace_free: "\<not> whitespace_free (''artist: '' @ t)"
  by (simp add: whitespace_free_def isspace_def)

lemma final_pool_set:
  "set (final_pool e st) = set (collected_tags st) \<union> (\<lambda>t. ''artist: '' @ t) ` set (collected_artist_tags st)"
  by (simp add: final_pool_def)

lemma final_pool_length:
  "length (final_pool e st) = length (collected_tags st) + length (collected_artist_tags st)"
  by (simp add: final_pool_def)

lemma tags_artists_disjoint:
  assumes "state_ok st"
  shows "set (collected_tags st) \<inter> (\<lambda>t. ''artist: '' @ t) ` set (collected_artist_tags st) = {}"
proof -
  have "whitespace_free x" if "x \<in> set (collected_tags st)" for x
    using assms that by (auto simp: state_ok_def list_all_iff is_token_def)
  then show ?thesis using artist_entry_not_whitespace_free by blast
qed

lemma distinct_final_pool:
  assumes "state_ok st"
  shows "distinct (final_pool e st)"
proof -
  have "distinct (map (\<lambda>t. ''artist: '' @ t) (py_list (order_artists e) (collected_artist_tags st)))"
    using assms by (simp add: distinct_map state_ok_def inj_on_def)
  moreover have "distinct (py_list (order_tags e) (collected_tags st))"
    using assms by (simp add: state_ok_def)
  ultimately show ?thesis
    using tags_artists_disjoint [OF assms] by (simp add: final_pool_def)
qed

lemma aggregate_state_ok: "aggregate e cnt = Inr st \<Longrightarrow> state_ok st"
  unfolding aggregate_def using fetch_loop_state_ok [OF state_ok_init] by blast

lemma not_success_error [simp]: "\<not> status_success (error_status msg)"
  by (simp add: status_success_def error_status_def)

lemma not_success_warning [simp]: "\<not> status_success (warning_status n)"
  by (simp add: status_success_def warning_status_def)

lemma fetch_tags_error:
  "aggregate e cnt = Inl a \<Longrightarrow> fetch_tags e cnt = Inr ([], [], [], error_status (fst a))"
  by (simp add: fetch_tags_def split: prod.splits)

lemma fetch_tags_pool:
  assumes "aggregate e cnt = Inr st" and "fetch_tags e cnt = Inr (sample, urls, pool, status)"
  shows "mset pool = mset (final_pool e st)"
  using assms by (auto simp: fetch_tags_def Let_def split: if_splits sum.splits)

lemma requests_issued_bound: "requests_issued e cnt \<le> max_requests"
proof (cases "aggregate e cnt")
  case (Inl a)
  obtain m n where a: "a = (m, n)" by (cases a)
  from Inl a fetch_loop_Inl [of "http_get e" "needed_candidates cnt" init_state m n]
  show ?thesis by (simp add: requests_issued_def aggregate_def)
next
  case (Inr st)
  from Inr fetch_loop_Inr [of "http_get e" "needed_candidates cnt" init_state st]
  show ?thesis by (auto simp: requests_issued_def aggregate_def init_state_def)
qed

lemma aggregate_exit:
  assumes "aggregate e cnt = Inr st"
  shows "needed_candidates cnt \<le> int (length (collected_tags st) + length (collected_artist_tags st))
         \<or> requests_made st = max_requests"
proof -
  from assms fetch_loop_Inr [of "http_get e" "needed_candidates cnt" init_state st]
  show ?thesis by (auto simp: aggregate_def init_state_def)
qed

lemma fetch_loop_progress:
  assumes "int (length (collected_tags st) + length (collected_artist_tags st)) < needed"
    and "requests_made st < max_requests"
  shows "requests_made st < (case fetch_loop http needed st of Inl (m, n) \<Rightarrow> n | Inr st' \<Rightarrow> requests_made st')"
proof (cases "fetch_loop http needed st")
  case (Inl a)
  obtain m n where a: "a = (m, n)" by (cases a)
  from Inl a fetch_loop_Inl [of http needed st m n] show ?thesis by simp
next
  case (Inr st')
  show ?thesis
  proof (cases "http (requests_made st + 1)")
    case (RequestException m)
    then show ?thesis using Inr assms by (subst (asm) fetch_loop.simps) simp
  next
    case (Json posts)
    define st1 where "st1 = (if posts = [] then st\<lparr>requests_made := requests_made st + 1\<rparr>
          else add_posts (st\<lparr>requests_made := requests_made st + 1\<rparr>) posts)"
    have r1: "requests_made st1 = requests_made st + 1" by (simp add: st1_def)
    have "fetch_loop http needed st1 = Inr st'"
      using Inr assms Json by (subst (asm) fetch_loop.simps) (auto simp: st1_def)
    from fetch_loop_Inr [OF this] r1 show ?thesis using Inr by simp
  qed
qed

lemma fetch_loop_no_entry:
  "\<not> int (length (collected_tags st) + length (collected_artist_tags st)) < needed
     \<Longrightarrow> fetch_loop http needed st = Inr st"
  by (subst fetch_loop.simps) simp

lemma fetch_loop_empty_answers:
  assumes "\<forall>k. http k = Json []"
    and "int (length (collected_tags st) + length (collected_artist_tags st)) < needed"
    and "requests_made st \<le> max_requests"
  shows "fetch_loop http needed st = Inr (st\<lparr>requests_made := max_requests\<rparr>)"
  using assms
proof (induction http needed st rule: fetch_loop.induct)
  case (1 http needed st)
  show ?case
  proof (cases "requests_made st < max_requests")
    case False
    then have "requests_made st = max_requests" using "1.prems"(3) by simp
    then show ?thesis by (subst fetch_loop.simps) simp
  next
    case True
    have j: "http (requests_made st + 1) = Json []" using "1.prems"(1) by simp
    have cond: "int (length (collected_tags st) + length (collected_artist_tags st)) < needed
         \<and> requests_made st < max_requests"
      using True "1.prems"(2) by simp
    have "fetch_loop http needed (st\<lparr>requests_made := requests_made st + 1\<rparr>)
            = Inr (st\<lparr>requests_made := requests_made st + 1\<rparr>\<lparr>requests_made := max_requests\<rparr>)"
    proof (rule "1.IH"(1) [OF cond j refl])
      show "\<forall>k. http k = Json []" by (rule "1.prems"(1))
      show "int (length (collected_tags (st\<lparr>requests_made := requests_made st + 1\<rparr>))
              + length (collected_artist_tags (st\<lparr>requests_made := requests_made st + 1\<rparr>))) < needed"
        using "1.prems"(2) by simp
      show "requests_made (st\<lparr>requests_made := requests_made st + 1\<rparr>) \<le> max_requests"
        using True by simp
    qed
    then have next_run: "fetch_loop http needed (st\<lparr>requests_made := requests_made st + 1\<rparr>)
            = Inr (st\<lparr>requests_made := max_requests\<rparr>)"
      by simp
    have "fetch_loop http needed st = fetch_loop http needed (st\<lparr>requests_made := requests_made st + 1\<rparr>)"
      using cond j by (subst fetch_loop.simps) simp
    with next_run show ?thesis by simp
  qed
qed

lemma split_at_piece: "c \<notin> set x \<Longrightarrow> split_at c cur (x @ rest) = split_at c (cur @ x) rest"
  by (induction x arbitrary: cur) auto

lemma split_at_join:
  "xs \<noteq> [] \<Longrightarrow> list_all (\<lambda>x. c \<notin> set x) xs \<Longrightarrow> split_at c cur (str_join [c] xs) = (cur @ hd xs) # tl xs"
proof (induction "[c]" xs arbitrary: cur rule: str_join.induct)
  case 1
  then show ?case by simp
next
  case (2 x)
  then show ?case using split_at_piece [of c x cur "[]"] by simp
next
  case (3 x y ys)
  have "split_at c cur (x @ [c] @ str_join [c] (y # ys)) = split_at c (cur @ x) (c # str_join [c] (y # ys))"
    using 3 split_at_piece [of c x cur] by simp
  also have "\<dots> = (cur @ x) # split_at c [] (str_join [c] (y # ys))" by simp
  also have "split_at c [] (str_join [c] (y # ys)) = y # ys" using 3 by simp
  finally show ?case by simp
qed

lemma requests_made_state_after [simp]: "requests_made (state_after http k) = k"
  by (induction k) (simp_all add: init_state_def split: response.splits)

lemma fetch_loop_trace_Inr:
  assumes "st = state_after http (requests_made st)"
    and "fetch_loop http needed st = Inr st'"
  shows "st' = state_after http (requests_made st')
         \<and> requests_made st \<le> requests_made st'
         \<and> (\<forall>j. requests_made st \<le> j \<and> j < requests_made st' \<longrightarrow> loop_guard needed (state_after http j))
         \<and> \<not> loop_guard needed st'"
  using assms
proof (induction http needed st rule: fetch_loop.induct)
  case (1 http needed st)
  show ?case
  proof (cases "loop_guard needed st")
    case False
    then have "st' = st"
      using "1.prems"(2) by (subst (asm) fetch_loop.simps) (auto simp: loop_guard_def)
    then show ?thesis using False "1.prems"(1) by auto
  next
    case True
    then have cond: "int (length (collected_tags st) + length (collected_artist_tags st)) < needed
         \<and> requests_made st < max_requests"
      by (simp add: loop_guard_def)
    show ?thesis
    proof (cases "http (requests_made st + 1)")
      case (RequestException msg)
      then show ?thesis using "1.prems"(2) cond by (subst (asm) fetch_loop.simps) auto
    next
      case (Json posts)
      define st1 where "st1 = add_posts (st\<lparr>requests_made := requests_made st + 1\<rparr>) posts"
      have r1: "requests_made st1 = requests_made st + 1" by (simp add: st1_def)
      have "state_after http (Suc (requests_made st)) = st1"
        using Json "1.prems"(1) by (simp add: st1_def)
      then have s1: "st1 = state_after http (requests_made st1)" using r1 by simp
      have run: "fetch_loop http needed st1 = Inr st'"
        using "1.prems"(2) cond Json
        by (subst (asm) fetch_loop.simps) (auto simp: st1_def split: if_splits)
      have ih: "st' = state_after http (requests_made st')
         \<and> requests_made st1 \<le> requests_made st'
         \<and> (\<forall>j. requests_made st1 \<le> j \<and> j < requests_made st' \<longrightarrow> loop_guard needed (state_after http j))
         \<and> \<not> loop_guard needed st'"
      proof (cases "posts = []")
        case True
        then have e: "st\<lparr>requests_made := requests_made st + 1\<rparr> = st1" by (simp add: st1_def)
        show ?thesis using "1.IH"(1) [OF cond Json True] s1 run unfolding e by blast
      next
        case False
        show ?thesis using "1.IH"(2) [OF cond Json False] s1 run unfolding st1_def by blast
      qed
      have "loop_guard needed (state_after http j)" if "requests_made st \<le> j" "j < requests_made st'" for j
      proof (cases "j = requests_made st")
        case True
        then show ?thesis using \<open>loop_guard needed st\<close> "1.prems"(1) by simp
      next
        case False
        then have "requests_made st1 \<le> j" using that r1 by simp
        then show ?thesis using ih that by blast
      qed
      then show ?thesis using ih r1 by auto
    qed
  qed
qed

lemma fetch_loop_trace_Inl:
  assumes "st = state_after http (requests_made st)"
    and "fetch_loop http needed st = Inl (m, n)"
  shows "\<forall>j. requests_made st \<le> j \<and> j < n \<longrightarrow> loop_guard needed (state_after http j)"
  using assms
proof (induction http needed st rule: fetch_loop.induct)
  case (1 http needed st)
  show ?case
  proof (cases "loop_guard needed st")
    case False
    then show ?thesis
      using "1.prems"(2) by (subst (asm) fetch_loop.simps) (auto simp: loop_guard_def)
  next
    case True
    then have cond: "int (length (collected_tags st) + length (collected_artist_tags st)) < needed
         \<and> requests_made st < max_requests"
      by (simp add: loop_guard_def)
    show ?thesis
    proof (cases "http (requests_made st + 1)")
      case (RequestException msg)
      then have "n = requests_made st + 1"
        using "1.prems"(2) cond by (subst (asm) fetch_loop.simps) simp
      then show ?thesis using True "1.prems"(1) by (auto simp: less_Suc_eq_le)
    next
      case (Json posts)
      define st1 where "st1 = add_posts (st\<lparr>requests_made := requests_made st + 1\<rparr>) posts"
      have r1: "requests_made st1 = requests_made st + 1" by (simp add: st1_def)
      have "state_after http (Suc (requests_made st)) = st1"
        using Json "1.prems"(1) by (simp add: st1_def)
      then have s1: "st1 = state_after http (requests_made st1)" using r1 by simp
      have run: "fetch_loop http needed st1 = Inl (m, n)"
        using "1.prems"(2) cond Json
        by (subst (asm) fetch_loop.simps) (auto simp: st1_def split: if_splits)
      have ih: "\<forall>j. requests_made st1 \<le> j \<and> j < n \<longrightarrow> loop_guard needed (state_after http j)"
      proof (cases "posts = []")
        case True
        then have e: "st\<lparr>requests_made := requests_made st + 1\<rparr> = st1" by (simp add: st1_def)
        show ?thesis using "1.IH"(1) [OF cond Json True] s1 run unfolding e by blast
      next
        case False
        show ?thesis using "1.IH"(2) [OF cond Json False] s1 run unfolding st1_def by blast
      qed
      have "loop_guard needed (state_after http j)" if "requests_made st \<le> j" "j < n" for j
      proof (cases "j = requests_made st")
        case True
        then show ?thesis using \<open>loop_guard needed st\<close> "1.prems"(1) by simp
      next
        case False
        then have "requests_made st1 \<le> j" using that r1 by simp
        then show ?thesis using ih that by blast
      qed
      then show ?thesis by blast
    qed
  qed
qed

lemma init_state_after: "init_state = state_after http (requests_made init_state)"
  by (simp add: init_state_def)

lemma requests_guarded:
  assumes "k < requests_issued e cnt"
  shows "loop_guard (needed_candidates cnt) (state_after (http_get e) k)"
proof (cases "aggregate e cnt")
  case (Inl a)
  obtain m n where a: "a = (m, n)" by (cases a)
  have "k < n" using assms Inl a by (simp add: requests_issued_def)
  moreover have "fetch_loop (http_get e) (needed_candidates cnt) init_state = Inl (m, n)"
    using Inl a by (simp add: aggregate_def)
  ultimately show ?thesis
    using fetch_loop_trace_Inl [OF init_state_after] by (simp add: init_state_def)
next
  case (Inr st)
  have "k < requests_made st" using assms Inr by (simp add: requests_issued_def)
  moreover have "fetch_loop (http_get e) (needed_candidates cnt) init_state = Inr st"
    using Inr by (simp add: aggregate_def)
  ultimately show ?thesis
    using fetch_loop_trace_Inr [OF init_state_after] by (simp add: init_state_def)
qed

lemma aggregate_final_state:
  assumes "aggregate e cnt = Inr st"
  shows "st = state_after (http_get e) (requests_issued e cnt)"
proof -
  have "fetch_loop (http_get e) (needed_candidates cnt) init_state = Inr st"
    using assms by (simp add: aggregate_def)
  from fetch_loop_trace_Inr [OF init_state_after this] assms
  show ?thesis by (simp add: requests_issued_def)
qed

lemma aggregate_failure:
  assumes "aggregate e cnt = Inl (m, n)"
  shows "http_get e n = RequestException m"
  using assms fetch_loop_Inl [of "http_get e" "needed_candidates cnt" init_state m n]
  by (simp add: aggregate_def)

lemma random_shuffle_complete: "mset ys = mset x \<Longrightarrow> \<exists>r. random_shuffle r x = ys"
  using py_list_complete [of ys x] by (simp add: py_list_def random_shuffle_def)

lemma aggregate_rng [simp]: "aggregate (e\<lparr>rng := r\<rparr>) cnt = aggregate e cnt"
  by (simp add: aggregate_def)

lemma final_pool_rng [simp]: "final_pool (e\<lparr>rng := r\<rparr>) st = final_pool e st"
  by (simp add: final_pool_def)

lemma success_status_zero: "success_status 0 = ''Success! Generated 0 tags from random posts.''"
  by code_simp

section \<open>The claims\<close>

text \<open>
  C1. For every target count from zero up, when \<^verbatim>\<open>fetch_tags\<close> returns with a status that
  indicates success, the returned sample has exactly that many elements, they are pairwise
  distinct, and each of them is a member of the returned full pool.
\<close>

theorem fetch_tags_success_sample:
  assumes "0 \<le> cnt"
    and "fetch_tags e cnt = Inr (sample, urls, pool, status)"
    and "status_success status"
  shows "int (length sample) = cnt \<and> distinct sample \<and> set sample \<subseteq> set pool"
proof (cases "aggregate e cnt")
  case (Inl a)
  then have "status = error_status (fst a)"
    using assms(2) by (auto simp: fetch_tags_def split: prod.splits)
  with assms(3) show ?thesis by simp
next
  case (Inr st)
  show ?thesis
  proof (cases "int (length (final_pool e st)) < cnt")
    case True
    then have "\<exists>n. status = warning_status n"
      using assms(2) Inr by (auto simp: fetch_tags_def Let_def)
    with assms(3) show ?thesis by auto
  next
    case False
    then have "random_sample (rng e) (final_pool e st) cnt = Inr sample" and "pool = final_pool e st"
      using assms(2) Inr by (auto simp: fetch_tags_def Let_def split: sum.splits)
    then show ?thesis
      using random_sample_ok distinct_final_pool [OF aggregate_state_ok [OF Inr]] by blast
  qed
qed

theorem fetch_tags_success_sample_witness:
  "(0::int) \<le> 2
   \<and> fetch_tags example_env 2 =
       Inr ([''highres'', ''original''], [''https://danbooru.donmai.us/posts/42''],
            [''solo'', ''original'', ''highres'', ''1girl'', ''artist: solo''],
            ''Success! Generated 2 tags from random posts.'')
   \<and> status_success ''Success! Generated 2 tags from random posts.''
   \<and> int (length [''highres'', ''original'']) = 2
   \<and> distinct [''highres'', ''original'']
   \<and> set [''highres'', ''original'']
        \<subseteq> set [''solo'', ''original'', ''highres'', ''1girl'', ''artist: solo'']"
proof -
  have run: "fetch_tags example_env 2 =
       Inr ([''highres'', ''original''], [''https://danbooru.donmai.us/posts/42''],
            [''solo'', ''original'', ''highres'', ''1girl'', ''artist: solo''],
            ''Success! Generated 2 tags from random posts.'')"
    by code_simp
  have ok: "status_success ''Success! Generated 2 tags from random posts.''"
    by (simp add: status_success_def)
  have pos: "(0::int) \<le> 2" by simp
  from fetch_tags_success_sample [OF pos run ok] run ok show ?thesis by simp
qed

text \<open>
  C2. When the loop ends without a transport error and the combined pool has fewer elements
  than the target count, \<^verbatim>\<open>fetch_tags\<close> returns the whole pool in a randomized order as
  the sample, the list of source URLs, the full pool, and the warning status that names the
  number of tags found; the sample and the full pool are the same list. The order is the one
  the generator's draws give, and every arrangement of the pool is returned for some generator.
\<close>

theorem fetch_tags_shortfall:
  assumes "aggregate e cnt = Inr st"
    and "int (length (final_pool e st)) < cnt"
  shows "(\<exists>sample urls pool.
           fetch_tags e cnt = Inr (sample, urls, pool, warning_status (length (final_pool e st)))
           \<and> sample = pool
           \<and> mset sample = mset (final_pool e st)
           \<and> mset urls = mset (source_post_urls st))
         \<and> fetch_tags e cnt =
             Inr (random_shuffle (rng e) (final_pool e st),
                  py_list (order_urls e) (source_post_urls st),
                  random_shuffle (rng e) (final_pool e st),
                  warning_status (length (final_pool e st)))
         \<and> (\<forall>ys. mset ys = mset (final_pool e st) \<longrightarrow>
               (\<exists>r. fetch_tags (e\<lparr>rng := r\<rparr>) cnt =
                      Inr (ys, py_list (order_urls e) (source_post_urls st), ys,
                           warning_status (length (final_pool e st)))))"
proof -
  have run: "fetch_tags e' cnt =
             Inr (random_shuffle (rng e') (final_pool e st),
                  py_list (order_urls e') (source_post_urls st),
                  random_shuffle (rng e') (final_pool e st),
                  warning_status (length (final_pool e st)))"
    if "aggregate e' cnt = Inr st" "final_pool e' st = final_pool e st" for e'
    using that assms(2) by (simp add: fetch_tags_def Let_def size_mset [symmetric] del: size_mset)
  have "\<exists>r. fetch_tags (e\<lparr>rng := r\<rparr>) cnt =
                      Inr (ys, py_list (order_urls e) (source_post_urls st), ys,
                           warning_status (length (final_pool e st)))"
    if "mset ys = mset (final_pool e st)" for ys
  proof -
    from random_shuffle_complete [OF that] obtain r where r: "random_shuffle r (final_pool e st) = ys"
      by blast
    have "fetch_tags (e\<lparr>rng := r\<rparr>) cnt =
             Inr (random_shuffle (rng (e\<lparr>rng := r\<rparr>)) (final_pool e st),
                  py_list (order_urls (e\<lparr>rng := r\<rparr>)) (source_post_urls st),
                  random_shuffle (rng (e\<lparr>rng := r\<rparr>)) (final_pool e st),
                  warning_status (length (final_pool e st)))"
      by (rule run) (simp_all add: assms(1))
    then show ?thesis using r by auto
  qed
  moreover have here: "fetch_tags e cnt =
             Inr (random_shuffle (rng e) (final_pool e st),
                  py_list (order_urls e) (source_post_urls st),
                  random_shuffle (rng e) (final_pool e st),
                  warning_status (length (final_pool e st)))"
    by (rule run) (simp_all add: assms(1))
  ultimately show ?thesis by simp
qed

theorem fetch_tags_shortfall_witness:
  "aggregate shuffling_env 7 = Inr example_state
   \<and> int (length (final_pool shuffling_env example_state)) < 7
   \<and> final_pool shuffling_env example_state
       = [''solo'', ''original'', ''highres'', ''1girl'', ''artist: solo'']
   \<and> fetch_tags shuffling_env 7 =
       Inr ([''original'', ''highres'', ''1girl'', ''artist: solo'', ''solo''],
            [''https://danbooru.donmai.us/posts/42''],
            [''original'', ''highres'', ''1girl'', ''artist: solo'', ''solo''],
            ''Warning: Found only 5 unique tags. Returning all.'')
   \<and> (\<exists>r. fetch_tags (shuffling_env\<lparr>rng := r\<rparr>) 7 =
            Inr ([''artist: solo'', ''1girl'', ''highres'', ''original'', ''solo''],
                 py_list (order_urls shuffling_env) (source_post_urls example_state),
                 [''artist: solo'', ''1girl'', ''highres'', ''original'', ''solo''],
                 warning_status (length (final_pool shuffling_env example_state))))"
proof -
  have agg: "aggregate shuffling_env 7 = Inr example_state" by code_simp
  have short: "int (length (final_pool shuffling_env example_state)) < 7" by code_simp
  have pool: "final_pool shuffling_env example_state
       = [''solo'', ''original'', ''highres'', ''1girl'', ''artist: solo'']"
    by code_simp
  have run: "fetch_tags shuffling_env 7 =
       Inr ([''original'', ''highres'', ''1girl'', ''artist: solo'', ''solo''],
            [''https://danbooru.donmai.us/posts/42''],
            [''original'', ''highres'', ''1girl'', ''artist: solo'', ''solo''],
            ''Warning: Found only 5 unique tags. Returning all.'')"
    by code_simp
  have perm: "mset [''artist: solo'', ''1girl'', ''highres'', ''original'', ''solo'']
                = mset (final_pool shuffling_env example_state)"
    unfolding pool by simp
  from fetch_tags_shortfall [OF agg short] perm
  have "\<exists>r. fetch_tags (shuffling_env\<lparr>rng := r\<rparr>) 7 =
            Inr ([''artist: solo'', ''1girl'', ''highres'', ''original'', ''solo''],
                 py_list (order_urls shuffling_env) (source_post_urls example_state),
                 [''artist: solo'', ''1girl'', ''highres'', ''original'', ''solo''],
                 warning_status (length (final_pool shuffling_env example_state)))"
    by blast
  with agg short pool run show ?thesis by blast
qed

text \<open>
  C3. When a request that \<^verbatim>\<open>fetch_tags\<close> issues fails with a transport or HTTP error, also
  after earlier requests have succeeded and collected tags, the call returns the empty tag
  list, the empty source list and the empty pool with the error status that embeds the failure
  text, and the failed request is the last one issued.
\<close>

theorem fetch_tags_transport_error:
  assumes "1 \<le> k"
    and "k \<le> requests_issued e cnt"
    and "http_get e k = RequestException msg"
  shows "fetch_tags e cnt = Inr ([], [], [], ''Error: Failed to fetch posts from Danbooru. '' @ msg)
         \<and> requests_issued e cnt = k"
proof (cases "aggregate e cnt")
  case (Inr st)
  then have "k \<le> requests_made st" using assms(2) by (simp add: requests_issued_def)
  with Inr assms(1) fetch_loop_Inr [of "http_get e" "needed_candidates cnt" init_state st]
  have "\<exists>posts. http_get e k = Json posts" by (auto simp: aggregate_def init_state_def)
  with assms(3) show ?thesis by simp
next
  case (Inl a)
  obtain m n where a: "a = (m, n)" by (cases a)
  have kn: "k \<le> n" using Inl a assms(2) by (simp add: requests_issued_def)
  from Inl a fetch_loop_Inl [of "http_get e" "needed_candidates cnt" init_state m n]
  have n: "http_get e n = RequestException m"
    and before: "\<forall>j. 0 < j \<and> j < n \<longrightarrow> (\<exists>posts. http_get e j = Json posts)"
    by (simp_all add: aggregate_def init_state_def)
  have "k = n"
  proof (rule ccontr)
    assume "k \<noteq> n"
    then have "0 < k \<and> k < n" using kn assms(1) by simp
    then have "\<exists>posts. http_get e k = Json posts" using before by blast
    with assms(3) show False by simp
  qed
  then have "m = msg" using n assms(3) by simp
  then show ?thesis
    using fetch_tags_error [OF Inl] Inl a \<open>k = n\<close> by (simp add: error_status_def requests_issued_def)
qed

theorem fetch_tags_transport_error_witness:
  "(1::nat) \<le> 2 \<and> 2 \<le> requests_issued failing_env 2
   \<and> http_get failing_env 1 = Json [example_post]
   \<and> http_get failing_env 2 = RequestException ''timed out''
   \<and> fetch_tags failing_env 2 =
       Inr ([], [], [], ''Error: Failed to fetch posts from Danbooru. timed out'')
   \<and> requests_issued failing_env 2 = 2"
proof -
  have one: "(1::nat) \<le> 2" by simp
  have issued: "2 \<le> requests_issued failing_env 2" by code_simp
  have first: "http_get failing_env 1 = Json [example_post]" by (simp add: failing_env_def)
  have second: "http_get failing_env 2 = RequestException ''timed out''" by (simp add: failing_env_def)
  from fetch_tags_transport_error [OF one issued second] one issued first second
  show ?thesis by simp
qed

text \<open>
  C4. When \<^verbatim>\<open>fetch_tags\<close> returns without a transport error, the size of the full pool is the
  size of the general-tag set plus the size of the artist-tag set: no string is both an entry
  of the general set and a prefixed artist entry, and no string occurs twice in the pool.
\<close>

theorem full_pool_size_and_disjointness:
  assumes "aggregate e cnt = Inr st"
    and "fetch_tags e cnt = Inr (sample, urls, pool, status)"
  shows "length pool = card (set (collected_tags st)) + card (set (collected_artist_tags st))
         \<and> set (collected_tags st) \<inter> (\<lambda>tag. ''artist: '' @ tag) ` set (collected_artist_tags st) = {}
         \<and> set pool = set (collected_tags st) \<union> (\<lambda>tag. ''artist: '' @ tag) ` set (collected_artist_tags st)
         \<and> distinct pool"
proof -
  have ok: "state_ok st" using assms(1) by (rule aggregate_state_ok)
  have m: "mset pool = mset (final_pool e st)" using assms by (rule fetch_tags_pool)
  have "length pool = length (final_pool e st)" using m by (metis size_mset)
  moreover have "card (set (collected_tags st)) = length (collected_tags st)"
    "card (set (collected_artist_tags st)) = length (collected_artist_tags st)"
    using ok by (simp_all add: state_ok_def distinct_card)
  moreover have "set pool = set (final_pool e st)" using m by (metis set_mset_mset)
  moreover have "distinct pool"
    using m distinct_final_pool [OF ok, of e] mset_eq_imp_distinct_iff by blast
  ultimately show ?thesis
    using tags_artists_disjoint [OF ok] by (simp add: final_pool_length final_pool_set)
qed

theorem full_pool_size_and_disjointness_witness:
  "aggregate example_env 2 = Inr example_state
   \<and> fetch_tags example_env 2 =
       Inr ([''highres'', ''original''], [''https://danbooru.donmai.us/posts/42''],
            [''solo'', ''original'', ''highres'', ''1girl'', ''artist: solo''],
            ''Success! Generated 2 tags from random posts.'')
   \<and> length [''solo'', ''original'', ''highres'', ''1girl'', ''artist: solo'']
       = card (set (collected_tags example_state)) + card (set (collected_artist_tags example_state))
   \<and> distinct [''solo'', ''original'', ''highres'', ''1girl'', ''artist: solo'']"
proof -
  have agg: "aggregate example_env 2 = Inr example_state" by code_simp
  have run: "fetch_tags example_env 2 =
       Inr ([''highres'', ''original''], [''https://danbooru.donmai.us/posts/42''],
            [''solo'', ''original'', ''highres'', ''1girl'', ''artist: solo''],
            ''Success! Generated 2 tags from random posts.'')"
    by code_simp
  from full_pool_size_and_disjointness [OF agg run] agg run show ?thesis by blast
qed

text \<open>
  C5. The candidate threshold is three times the target count plus twenty. A request is
  issued only in a state in which the candidate count is below the threshold and fewer than
  ten requests have been made: this holds of the state before each request issued, and fails
  of the state in which the loop ends. Every iteration counts as a request, also one whose
  answer is an empty post list, and at most ten requests are issued.
\<close>

theorem fetch_tags_request_bound:
  "needed_candidates cnt = cnt * 3 + 20
   \<and> requests_issued e cnt \<le> 10
   \<and> (needed_candidates cnt \<le> 0 \<longrightarrow> requests_issued e cnt = 0)
   \<and> (\<forall>st. aggregate e cnt = Inr st \<longrightarrow>
         needed_candidates cnt \<le> int (length (collected_tags st) + length (collected_artist_tags st))
         \<or> requests_made st = 10)
   \<and> ((\<forall>k. http_get e k = Json []) \<and> 0 < needed_candidates cnt \<longrightarrow> requests_issued e cnt = 10)
   \<and> (\<forall>k. k < requests_issued e cnt \<longrightarrow>
         int (length (collected_tags (state_after (http_get e) k))
              + length (collected_artist_tags (state_after (http_get e) k))) < needed_candidates cnt
         \<and> k < 10)
   \<and> (\<forall>st. aggregate e cnt = Inr st \<longrightarrow> st = state_after (http_get e) (requests_issued e cnt))
   \<and> (\<forall>msg n. aggregate e cnt = Inl (msg, n) \<longrightarrow> http_get e n = RequestException msg)
   \<and> (\<forall>k. requests_made (state_after (http_get e) k) = k)"
proof -
  have "requests_issued e cnt = 0" if "needed_candidates cnt \<le> 0"
    using that fetch_loop_no_entry [of init_state "needed_candidates cnt" "http_get e"]
    by (simp add: requests_issued_def aggregate_def init_state_def)
  moreover have "requests_issued e cnt = 10" if "\<forall>k. http_get e k = Json []" "0 < needed_candidates cnt"
    using that fetch_loop_empty_answers [of "http_get e" init_state "needed_candidates cnt"]
    by (simp add: requests_issued_def aggregate_def init_state_def max_requests_def)
  moreover have "int (length (collected_tags (state_after (http_get e) k))
              + length (collected_artist_tags (state_after (http_get e) k))) < needed_candidates cnt
         \<and> k < 10" if "k < requests_issued e cnt" for k
    using requests_guarded [OF that] by (simp add: loop_guard_def max_requests_def)
  moreover have "needed_candidates cnt = cnt * 3 + 20" by (simp add: needed_candidates_def)
  moreover have "requests_issued e cnt \<le> 10"
    using requests_issued_bound [of e cnt] by (simp add: max_requests_def)
  moreover have "needed_candidates cnt \<le> int (length (collected_tags st) + length (collected_artist_tags st))
         \<or> requests_made st = 10" if "aggregate e cnt = Inr st" for st
    using aggregate_exit [OF that] by (simp add: max_requests_def)
  ultimately show ?thesis
    using aggregate_final_state [of e cnt] aggregate_failure [of e cnt] by simp
qed

theorem fetch_tags_request_bound_witness:
  "needed_candidates 0 = 0 * 3 + 20
   \<and> (\<forall>k. http_get empty_env k = Json []) \<and> 0 < needed_candidates 0
   \<and> requests_issued empty_env 0 = 10
   \<and> needed_candidates (- 7) \<le> 0 \<and> requests_issued empty_env (- 7) = 0
   \<and> aggregate example_env 2 = Inr example_state \<and> requests_made example_state = 10
   \<and> needed_candidates 2 = 26
   \<and> requests_issued alphabet_env 2 = 1
   \<and> int (length (collected_tags (state_after (http_get alphabet_env) 0))
            + length (collected_artist_tags (state_after (http_get alphabet_env) 0))) < 26
   \<and> int (length (collected_tags (state_after (http_get alphabet_env) 1))
            + length (collected_artist_tags (state_after (http_get alphabet_env) 1))) = 26
   \<and> aggregate alphabet_env 2 = Inr (state_after (http_get alphabet_env) 1)
   \<and> aggregate failing_env 2 = Inl (''timed out'', 2)
   \<and> http_get failing_env 2 = RequestException ''timed out''"
proof -
  have a: "\<forall>k. http_get empty_env k = Json []" by (simp add: empty_env_def)
  have b: "0 < needed_candidates 0" and c: "needed_candidates (- 7) \<le> 0"
    and n2: "needed_candidates 2 = 26"
    by (simp_all add: needed_candidates_def)
  have d: "aggregate example_env 2 = Inr example_state" by code_simp
  have f: "requests_made example_state = 10" by (simp add: example_state_def)
  have one: "requests_issued alphabet_env 2 = 1" by code_simp
  have full: "int (length (collected_tags (state_after (http_get alphabet_env) 1))
            + length (collected_artist_tags (state_after (http_get alphabet_env) 1))) = 26"
    by code_simp
  have agg: "aggregate alphabet_env 2 = Inr (state_after (http_get alphabet_env) 1)" by code_simp
  have fail: "aggregate failing_env 2 = Inl (''timed out'', 2)" by code_simp
  have zero: "(0::nat) < requests_issued alphabet_env 2" using one by simp
  from fetch_tags_request_bound [of 2 alphabet_env] zero
  have "int (length (collected_tags (state_after (http_get alphabet_env) 0))
            + length (collected_artist_tags (state_after (http_get alphabet_env) 0)))
          < needed_candidates 2"
    by blast
  then have first: "int (length (collected_tags (state_after (http_get alphabet_env) 0))
            + length (collected_artist_tags (state_after (http_get alphabet_env) 0))) < 26"
    using n2 by simp
  from fetch_tags_request_bound [of 2 failing_env] fail
  have err: "http_get failing_env 2 = RequestException ''timed out''" by blast
  from fetch_tags_request_bound [of 0 empty_env] fetch_tags_request_bound [of "- 7" empty_env]
    a b c d f n2 one full agg fail first err
  show ?thesis by simp
qed

text \<open>
  C6, as the claim states it, fails: with target count zero the candidate threshold is twenty
  and is not met by the empty sets, so requests are issued; against an endpoint that only
  returns empty lists all ten are.
\<close>

theorem zero_count_threshold_counterexample:
  "needed_candidates 0 = 20
   \<and> \<not> needed_candidates 0
        \<le> int (length (collected_tags init_state) + length (collected_artist_tags init_state))
   \<and> requests_issued empty_env 0 = 10
   \<and> fetch_tags empty_env 0 = Inr ([], [], [], ''Success! Generated 0 tags from random posts.'')"
proof -
  have "requests_issued empty_env 0 = 10" by code_simp
  moreover have "fetch_tags empty_env 0 = Inr ([], [], [], ''Success! Generated 0 tags from random posts.'')"
    by code_simp
  ultimately show ?thesis by (simp add: needed_candidates_def init_state_def)
qed

text \<open>
  C6, amended. With target count zero \<^verbatim>\<open>fetch_tags\<close> returns normally with an empty sample:
  with the status of zero generated tags, the source URLs and the full pool when the loop ends
  without a transport error, and with the empty error result when a request fails. The
  candidate threshold is twenty; at least one request is issued, each request is issued with
  fewer than twenty candidates held and fewer than ten requests made, and the loop ends only
  with twenty candidates collected or ten requests made.
\<close>

theorem fetch_tags_zero_count:
  "(\<exists>urls pool status. fetch_tags e 0 = Inr ([], urls, pool, status))
   \<and> needed_candidates 0 = 20
   \<and> 1 \<le> requests_issued e 0
   \<and> (\<forall>st. aggregate e 0 = Inr st \<longrightarrow>
         20 \<le> length (collected_tags st) + length (collected_artist_tags st) \<or> requests_made st = 10)
   \<and> (\<forall>st. aggregate e 0 = Inr st \<longrightarrow>
         fetch_tags e 0 =
           Inr ([], py_list (order_urls e) (source_post_urls st), final_pool e st,
                ''Success! Generated 0 tags from random posts.'')
         \<and> st = state_after (http_get e) (requests_issued e 0))
   \<and> (\<forall>msg n. aggregate e 0 = Inl (msg, n) \<longrightarrow>
         http_get e n = RequestException msg
         \<and> fetch_tags e 0 = Inr ([], [], [], ''Error: Failed to fetch posts from Danbooru. '' @ msg))
   \<and> (\<forall>k. k < requests_issued e 0 \<longrightarrow>
         length (collected_tags (state_after (http_get e) k))
           + length (collected_artist_tags (state_after (http_get e) k)) < 20
         \<and> k < 10)"
proof -
  have n: "needed_candidates 0 = 20" by (simp add: needed_candidates_def)
  have res: "\<exists>urls pool status. fetch_tags e 0 = Inr ([], urls, pool, status)"
    by (cases "aggregate e 0") (auto simp: fetch_tags_def Let_def random_sample_def split: prod.splits)
  have "requests_made init_state
          < (case fetch_loop (http_get e) 20 init_state of Inl (m, n) \<Rightarrow> n | Inr st' \<Rightarrow> requests_made st')"
    by (rule fetch_loop_progress) (simp_all add: init_state_def max_requests_def)
  then have one: "1 \<le> requests_issued e 0"
    by (simp add: requests_issued_def aggregate_def n init_state_def)
  have ok: "fetch_tags e 0 =
           Inr ([], py_list (order_urls e) (source_post_urls st), final_pool e st,
                ''Success! Generated 0 tags from random posts.'')
         \<and> st = state_after (http_get e) (requests_issued e 0)" if "aggregate e 0 = Inr st" for st
    using that aggregate_final_state [OF that]
    by (simp add: fetch_tags_def Let_def random_sample_def success_status_zero)
  have err: "http_get e n = RequestException msg
         \<and> fetch_tags e 0 = Inr ([], [], [], ''Error: Failed to fetch posts from Danbooru. '' @ msg)"
    if "aggregate e 0 = Inl (msg, n)" for msg n
    using aggregate_failure [OF that] fetch_tags_error [OF that] by (simp add: error_status_def)
  have guard: "length (collected_tags (state_after (http_get e) k))
           + length (collected_artist_tags (state_after (http_get e) k)) < 20
         \<and> k < 10" if "k < requests_issued e 0" for k
    using requests_guarded [OF that] by (simp add: loop_guard_def max_requests_def n)
  have exit: "20 \<le> length (collected_tags st) + length (collected_artist_tags st) \<or> requests_made st = 10"
    if "aggregate e 0 = Inr st" for st
    using aggregate_exit [OF that] by (auto simp: max_requests_def n)
  show ?thesis using n res one ok err guard exit by blast
qed

theorem fetch_tags_zero_count_witness:
  "aggregate example_env 0 = Inr example_state
   \<and> requests_made example_state = 10
   \<and> fetch_tags example_env 0 =
       Inr ([], [''https://danbooru.donmai.us/posts/42''],
            [''solo'', ''original'', ''highres'', ''1girl'', ''artist: solo''],
            ''Success! Generated 0 tags from random posts.'')
   \<and> 1 \<le> requests_issued example_env 0
   \<and> example_state = state_after (http_get example_env) (requests_issued example_env 0)
   \<and> aggregate failing_env 0 = Inl (''timed out'', 2)
   \<and> fetch_tags failing_env 0 = Inr ([], [], [], ''Error: Failed to fetch posts from Danbooru. timed out'')
   \<and> requests_issued failing_env 0 = 2
   \<and> length (collected_tags (state_after (http_get failing_env) 1))
        + length (collected_artist_tags (state_after (http_get failing_env) 1)) < 20"
proof -
  have agg: "aggregate example_env 0 = Inr example_state" by code_simp
  have r: "requests_made example_state = 10" by (simp add: example_state_def)
  have run: "fetch_tags example_env 0 =
       Inr ([], [''https://danbooru.donmai.us/posts/42''],
            [''solo'', ''original'', ''highres'', ''1girl'', ''artist: solo''],
            ''Success! Generated 0 tags from random posts.'')"
    by code_simp
  have fail: "aggregate failing_env 0 = Inl (''timed out'', 2)" by code_simp
  have two: "requests_issued failing_env 0 = 2" by code_simp
  have lt: "(1::nat) < requests_issued failing_env 0" using two by simp
  from fetch_tags_zero_count [of example_env] agg
  have fin: "example_state = state_after (http_get example_env) (requests_issued example_env 0)"
    and one: "1 \<le> requests_issued example_env 0"
    by blast+
  from fetch_tags_zero_count [of failing_env] fail
  have err: "fetch_tags failing_env 0 = Inr ([], [], [], ''Error: Failed to fetch posts from Danbooru. '' @ ''timed out'')"
    by blast
  from fetch_tags_zero_count [of failing_env] lt
  have g: "length (collected_tags (state_after (http_get failing_env) 1))
        + length (collected_artist_tags (state_after (http_get failing_env) 1)) < 20"
    by blast
  from agg r run one fin fail err two g show ?thesis by simp
qed

text \<open>
  C7. When the user gives a random range whose minimum is greater than its maximum, such as
  10 and 5, \<^verbatim>\<open>fetch_tags\<close> is not invoked: the input is rejected with a validation error
  before any request is issued.
\<close>

theorem inverted_range_rejected:
  assumes "mode ui \<noteq> ''fixed''"
    and "py_int (min_entry ui) = Some lo"
    and "py_int (max_entry ui) = Some hi"
    and "lo > hi"
  shows "fetch_started (start_generation_thread py_int r ui) = None
         \<and> error_box (start_generation_thread py_int r ui)
             = Some (''Input Error'', ''Minimum value cannot be greater than the maximum value.'')
         \<and> generate_click py_int r e ui = (None, 0)"
  using assms by (simp add: start_generation_thread_def generate_click_def input_error_def)

theorem inverted_range_rejected_witness:
  "mode inverted_inputs \<noteq> ''fixed''
   \<and> example_int (min_entry inverted_inputs) = Some 10
   \<and> example_int (max_entry inverted_inputs) = Some 5
   \<and> (10::int) > 5
   \<and> fetch_started (start_generation_thread example_int 0 inverted_inputs) = None
   \<and> generate_click example_int 0 example_env inverted_inputs = (None, 0)"
proof -
  have a: "mode inverted_inputs \<noteq> ''fixed''" by (simp add: inverted_inputs_def)
  have b: "example_int (min_entry inverted_inputs) = Some 10"
    and c: "example_int (max_entry inverted_inputs) = Some 5"
    by (simp_all add: inverted_inputs_def example_int_def)
  have d: "(10::int) > 5" by simp
  from inverted_range_rejected [OF a b c d, of 0 example_env] a b c d show ?thesis by simp
qed

text \<open>
  C8. The export of the source URLs writes the sorted URLs joined by newlines and nothing
  else: read back line by line, the file is the sorted list, a permutation of the stored one.
\<close>

theorem save_post_sources_content:
  assumes "urls \<noteq> []"
    and "filepath \<noteq> []"
    and "io_error filepath = None"
  shows "save_post_sources urls filepath io_error = Written filepath (str_join [CHR 0x0A] (sort urls))
         \<and> sorted (sort urls) \<and> mset (sort urls) = mset urls
         \<and> (list_all (\<lambda>u. CHR 0x0A \<notin> set u) urls
              \<longrightarrow> split_at (CHR 0x0A) [] (str_join [CHR 0x0A] (sort urls)) = sort urls)"
proof -
  have ne: "sort urls \<noteq> []" using assms(1) by (metis mset_sort mset_zero_iff)
  have "split_at (CHR 0x0A) [] (str_join [CHR 0x0A] (sort urls)) = sort urls"
    if "list_all (\<lambda>u. CHR 0x0A \<notin> set u) urls"
  proof -
    have "list_all (\<lambda>u. CHR 0x0A \<notin> set u) (sort urls)" using that by (simp add: list_all_iff)
    from split_at_join [OF ne this, of "[]"] ne show ?thesis by simp
  qed
  then show ?thesis using assms by (simp add: save_post_sources_def)
qed

theorem save_post_sources_content_witness:
  "[''https://danbooru.donmai.us/posts/9'', ''https://danbooru.donmai.us/posts/10''] \<noteq> []
   \<and> ''sources.txt'' \<noteq> []
   \<and> save_post_sources [''https://danbooru.donmai.us/posts/9'', ''https://danbooru.donmai.us/posts/10'']
        ''sources.txt'' (\<lambda>p. None)
       = Written ''sources.txt''
           (''https://danbooru.donmai.us/posts/10'' @ [CHR 0x0A] @ ''https://danbooru.donmai.us/posts/9'')
   \<and> split_at (CHR 0x0A) []
        (''https://danbooru.donmai.us/posts/10'' @ [CHR 0x0A] @ ''https://danbooru.donmai.us/posts/9'')
       = [''https://danbooru.donmai.us/posts/10'', ''https://danbooru.donmai.us/posts/9'']"
proof -
  have a: "[''https://danbooru.donmai.us/posts/9'', ''https://danbooru.donmai.us/posts/10''] \<noteq> []" by simp
  have b: "''sources.txt'' \<noteq> []" by simp
  have c: "(\<lambda>p::string. None::string option) ''sources.txt'' = None" by simp
  have s: "sort [''https://danbooru.donmai.us/posts/9'', ''https://danbooru.donmai.us/posts/10'']
             = [''https://danbooru.donmai.us/posts/10'', ''https://danbooru.donmai.us/posts/9'']"
    by code_simp
  have l: "list_all (\<lambda>u. CHR 0x0A \<notin> set u)
             [''https://danbooru.donmai.us/posts/9'', ''https://danbooru.donmai.us/posts/10'']"
    by simp
  from save_post_sources_content [OF a b c] s l show ?thesis by simp
qed

text \<open>
  C9. For a negative target count, when the loop ends without a transport error, the shortfall
  branch is not taken, \<^verbatim>\<open>random.sample\<close> is called with a negative size, and
  \<^verbatim>\<open>fetch_tags\<close> leaves with an uncaught \<^verbatim>\<open>ValueError\<close>.
\<close>

theorem fetch_tags_negative_count:
  assumes "cnt < 0"
    and "aggregate e cnt = Inr st"
  shows "\<not> int (length (final_pool e st)) < cnt
         \<and> random_sample (rng e) (final_pool e st) cnt = Inl ValueError
         \<and> fetch_tags e cnt = Inl ValueError"
  using assms by (simp add: fetch_tags_def Let_def random_sample_def)

theorem fetch_tags_negative_count_witness:
  "(- 1 :: int) < 0 \<and> aggregate example_env (- 1) = Inr example_state
   \<and> fetch_tags example_env (- 1) = Inl ValueError"
proof -
  have neg: "(- 1 :: int) < 0" by simp
  have agg: "aggregate example_env (- 1) = Inr example_state" by code_simp
  from fetch_tags_negative_count [OF neg agg] neg agg show ?thesis by blast
qed

text \<open>
  C10. Every element of the full pool that \<^verbatim>\<open>fetch_tags\<close> returns is a non-empty token
  without whitespace, or the prefix \<^verbatim>\<open>artist: \<close> followed by such a token; an unprefixed
  entry holds no space, so a prefixed entry never equals one.
\<close>

theorem full_pool_entries:
  assumes "fetch_tags e cnt = Inr (sample, urls, pool, status)"
    and "x \<in> set pool"
  shows "((x \<noteq> [] \<and> whitespace_free x) \<or> (\<exists>tag. x = ''artist: '' @ tag \<and> tag \<noteq> [] \<and> whitespace_free tag))
         \<and> \<not> (whitespace_free x \<and> (\<exists>tag. x = ''artist: '' @ tag))"
proof (cases "aggregate e cnt")
  case (Inl a)
  then have "pool = []" using assms(1) fetch_tags_error [OF Inl] by simp
  with assms(2) show ?thesis by simp
next
  case (Inr st)
  have ok: "state_ok st" using Inr by (rule aggregate_state_ok)
  have "mset pool = mset (final_pool e st)" using Inr assms(1) by (rule fetch_tags_pool)
  then have "set pool = set (final_pool e st)" by (metis set_mset_mset)
  then have "x \<in> set (collected_tags st) \<or> x \<in> (\<lambda>tag. ''artist: '' @ tag) ` set (collected_artist_tags st)"
    using assms(2) by (simp add: final_pool_set)
  moreover have "is_token t" if "t \<in> set (collected_tags st)" for t
    using ok that by (auto simp: state_ok_def list_all_iff)
  moreover have "is_token t" if "t \<in> set (collected_artist_tags st)" for t
    using ok that by (auto simp: state_ok_def list_all_iff)
  ultimately show ?thesis
    using artist_entry_not_whitespace_free by (auto simp: is_token_def)
qed

theorem full_pool_entries_witness:
  "fetch_tags example_env 2 =
       Inr ([''highres'', ''original''], [''https://danbooru.donmai.us/posts/42''],
            [''solo'', ''original'', ''highres'', ''1girl'', ''artist: solo''],
            ''Success! Generated 2 tags from random posts.'')
   \<and> ''artist: solo'' \<in> set [''solo'', ''original'', ''highres'', ''1girl'', ''artist: solo'']
   \<and> \<not> whitespace_free ''artist: solo''
   \<and> whitespace_free ''solo''"
proof -
  have run: "fetch_tags example_env 2 =
       Inr ([''highres'', ''original''], [''https://danbooru.donmai.us/posts/42''],
            [''solo'', ''original'', ''highres'', ''1girl'', ''artist: solo''],
            ''Success! Generated 2 tags from random posts.'')"
    by code_simp
  have mem: "''artist: solo'' \<in> set [''solo'', ''original'', ''highres'', ''1girl'', ''artist: solo'']"
    by simp
  have "whitespace_free ''solo''" by (simp add: whitespace_free_def isspace_def)
  with full_pool_entries [OF run mem] run mem show ?thesis by auto
qed

end
